theory Spec2Isabelle
  imports Main
begin

section \<open>Objects of the evaluation layer\<close>

text \<open>
  The module \<^verbatim>\<open>jedi/evaluate/representation.py\<close> works on objects of the parser
  (\<^verbatim>\<open>pr.Class\<close>, \<^verbatim>\<open>pr.Function\<close>, \<^verbatim>\<open>pr.Module\<close>, statements, names,
  operators, tokens), on objects of the compiled model, and on its own wrappers.
  A parser node or compiled object is identified by a number (its identity); a wrapper
  is identified by its constructor arguments, which is what the caching metaclass of the
  wrappers provides (the section on the wrapper factory models it with references).
  A keyword statement carries its field \<^verbatim>\<open>stmt\<close>, which may be \<^verbatim>\<open>None\<close>; a
  name carries its first segment, its further segments (\<^verbatim>\<open>names[1:]\<close>) and its
  source text.
  \<^verbatim>\<open>Generator\<close> is the object \<^verbatim>\<open>iterable.Generator(evaluator, func, params)\<close>.
\<close>

type_synonym node = nat

datatype element =
    PrClass node
  | PrFunction node
  | PrModule node
  | PrOperator node
  | PrStatement node
  | PrKeywordStatement node "element option"
  | PrName string "string list" string
  | Token node
  | CompiledObject node
  | Class element
  | Function element bool
  | ModuleWrapper element
  | Instance element "element list"
  | FunctionExecution element "element list"
  | InstanceElement element element bool
  | Generator element "element list"

text \<open>
  The Python classes that the module tests with \<^verbatim>\<open>isinstance\<close>. \<open>classes_of\<close> lists,
  for an object, those of them it is an instance of: \<^verbatim>\<open>ModuleWrapper\<close> is declared
  as a subclass of \<^verbatim>\<open>pr.Module\<close>, whereas the wrappers \<^verbatim>\<open>Class\<close> and
  \<^verbatim>\<open>Function\<close> derive from \<^verbatim>\<open>Wrapper\<close> only and are no \<^verbatim>\<open>pr.Class\<close> or
  \<^verbatim>\<open>pr.Function\<close>.
\<close>

datatype pytype =
    T_pr_Class | T_pr_Function | T_pr_Module | T_pr_Operator | T_pr_KeywordStatement | T_Token
  | T_CompiledObject | T_Class | T_Function | T_ModuleWrapper | T_Instance
  | T_FunctionExecution | T_InstanceElement

fun classes_of :: "element \<Rightarrow> pytype list" where
  "classes_of (PrClass _) = [T_pr_Class]"
| "classes_of (PrFunction _) = [T_pr_Function]"
| "classes_of (PrModule _) = [T_pr_Module]"
| "classes_of (PrOperator _) = [T_pr_Operator]"
| "classes_of (PrStatement _) = []"
| "classes_of (PrKeywordStatement _ _) = [T_pr_KeywordStatement]"
| "classes_of (PrName _ _ _) = []"
| "classes_of (Token _) = [T_Token]"
| "classes_of (CompiledObject _) = [T_CompiledObject]"
| "classes_of (Class _) = [T_Class]"
| "classes_of (Function _ _) = [T_Function]"
| "classes_of (ModuleWrapper _) = [T_ModuleWrapper, T_pr_Module]"
| "classes_of (Instance _ _) = [T_Instance]"
| "classes_of (FunctionExecution _ _) = [T_FunctionExecution]"
| "classes_of (InstanceElement _ _ _) = [T_InstanceElement]"
| "classes_of (Generator _ _) = []"

definition isinstance :: "element \<Rightarrow> pytype list \<Rightarrow> bool" where
  "isinstance x ts = list_ex (\<lambda>t. t \<in> set (classes_of x)) ts"

text \<open>
  The diagnostics sink: \<^verbatim>\<open>debug.warning\<close> and \<^verbatim>\<open>debug.dbg\<close> append a
  message (its format string) with its level to the log.
\<close>

datatype level = WARNING | DBG

type_synonym log = "(level \<times> string) list"

definition warning :: "string \<Rightarrow> log \<Rightarrow> log" where
  "warning msg lg = lg @ [(WARNING, msg)]"

definition dbg :: "string \<Rightarrow> log \<Rightarrow> log" where
  "dbg msg lg = lg @ [(DBG, msg)]"

text \<open>
  The collaborators of the module. The evaluator maps a statement to the list of objects
  it may evaluate to (\<^verbatim>\<open>eval_statement\<close>) and executes a callable object on an
  argument list (\<^verbatim>\<open>execute\<close>); both return Python lists.
\<close>

record evaluator =
  eval_statement :: "element \<Rightarrow> element list"
  execute :: "element \<Rightarrow> element list \<Rightarrow> element list"

text \<open>
  The attributes of parser nodes, and of compiled objects, that the module reads. The
  class headers (\<^verbatim>\<open>pr.Class.supers\<close>) are a finite table from class nodes to their
  super-class statements; a class node without an entry has an empty header. A defined
  name is given by its first segment, its further segments and its source text.
  \<open>defined_names\<close> is \<^verbatim>\<open>pr.Scope.get_defined_names\<close> of a scope, and
  \<open>get_params_names\<close> the names of the parameters that \<^verbatim>\<open>param.get_params\<close> binds for
  a function and its arguments. \<^verbatim>\<open>returns\<close> lists the return points of a function, an entry being
  \<^verbatim>\<open>None\<close>, a keyword statement or (for a lambda) a statement.
\<close>

type_synonym name = "string \<times> string list \<times> string"

record tree =
  supers_table :: "(node \<times> element list) list"
  subscopes :: "element \<Rightarrow> element list"
  name_code :: "element \<Rightarrow> string"
  param_names :: "element \<Rightarrow> string list"
  decorators :: "element \<Rightarrow> element list"
  defined_names :: "element \<Rightarrow> name list"
  get_params_names :: "element \<Rightarrow> element list \<Rightarrow> name list"
  compiled_py__mro :: "element \<Rightarrow> element list"
  listeners :: "element \<Rightarrow> element list"
  returns :: "element \<Rightarrow> element option list"
  parent :: "element \<Rightarrow> element"
  is_generator :: "element \<Rightarrow> bool"


fun supers :: "tree \<Rightarrow> element \<Rightarrow> element list" where
  "supers tr (PrClass n) = (case map_of (supers_table tr) n of Some ss \<Rightarrow> ss | None \<Rightarrow> [])"
| "supers tr _ = []"

text \<open>\<^verbatim>\<open>compiled.object_obj\<close>, the compiled object of the builtin \<^verbatim>\<open>object\<close>.\<close>

definition object_obj :: element where
  "object_obj = CompiledObject 0"

section \<open>\<^verbatim>\<open>get_instance_el\<close> and the children of an \<^verbatim>\<open>InstanceElement\<close>\<close>

definition get_instance_el :: "element \<Rightarrow> element \<Rightarrow> bool \<Rightarrow> element" where
  "get_instance_el instance var is_class_var =
     (if isinstance var [T_Instance, T_CompiledObject, T_pr_Operator, T_Token,
                         T_pr_Module, T_FunctionExecution]
      then var
      else let var' = (if isinstance var [T_pr_Function] then Function var False
                       else if isinstance var [T_pr_Class] then Class var
                       else var)
           in InstanceElement instance var' is_class_var)"

text \<open>
  \<^verbatim>\<open>InstanceElement.__iter__\<close> (and, in the same way, \<^verbatim>\<open>expression_list\<close> and
  \<^verbatim>\<open>__getitem__\<close>) hands every child of the wrapped element to
  \<^verbatim>\<open>get_instance_el\<close>, with the instance and the flag of the proxy. The children of
  an element are given by the parser (\<open>children\<close>).
\<close>

fun instance_element_iter :: "(element \<Rightarrow> element list) \<Rightarrow> element \<Rightarrow> element list" where
  "instance_element_iter children (InstanceElement instance var is_class_var) =
     map (\<lambda>el. get_instance_el instance el is_class_var) (children var)"
| "instance_element_iter children _ = []"

section \<open>\<^verbatim>\<open>Class.py__bases__\<close>\<close>

text \<open>
  The inner loop \<^verbatim>\<open>for cls in self._evaluator.eval_statement(s)\<close> over the results
  of one super-class statement, and the outer loop \<^verbatim>\<open>for s in self.base.supers\<close>.
  The state of the loops is the list \<^verbatim>\<open>supers\<close> and the log.
\<close>

fun bases_results :: "element list \<Rightarrow> element list \<times> log \<Rightarrow> element list \<times> log" where
  "bases_results [] st = st"
| "bases_results (cls # rest) (acc, lg) =
     (if \<not> isinstance cls [T_Class, T_CompiledObject]
      then bases_results rest (acc, warning ''Received non class as a super class.'' lg)
      else bases_results rest (acc @ [cls], lg))"

fun bases_statements ::
  "evaluator \<Rightarrow> element list \<Rightarrow> element list \<times> log \<Rightarrow> element list \<times> log" where
  "bases_statements ev [] st = st"
| "bases_statements ev (s # ss) st =
     bases_statements ev ss (bases_results (eval_statement ev s) st)"

text \<open>
  The method of the wrapper \<^verbatim>\<open>Class(evaluator, base)\<close>; \<open>base\<close> is the field
  \<^verbatim>\<open>self.base\<close>. The result is the returned list and the log. The method is
  memoised; the evaluator is a function of the statement here, so the method is never
  re-entered while it runs and the memoisation does not show in the list it returns.
\<close>

definition py__bases :: "evaluator \<Rightarrow> tree \<Rightarrow> element \<Rightarrow> log \<Rightarrow> element list \<times> log" where
  "py__bases ev tr base lg =
     (case bases_statements ev (supers tr base) ([], lg) of
        (acc, lg') \<Rightarrow> if acc = [] then ([object_obj], lg') else (acc, lg'))"


section \<open>\<^verbatim>\<open>Function._decorated_func\<close> and \<^verbatim>\<open>Function.get_decorated_func\<close>\<close>

text \<open>
  One pass of the loop \<^verbatim>\<open>for dec in reversed(self.base_func.decorators)\<close>; the list
  argument holds the decorators still to be processed, already reversed, and \<open>f\<close> is
  the loop variable \<^verbatim>\<open>f\<close>. The first component of the result is \<open>None\<close> where
  the source returns \<^verbatim>\<open>None\<close> from inside the loop. \<^verbatim>\<open>dec_results.pop()\<close>
  removes and returns the last element of the list.
\<close>

fun decorate_loop ::
  "evaluator \<Rightarrow> element list \<Rightarrow> element \<Rightarrow> log \<Rightarrow> element option \<times> log" where
  "decorate_loop ev [] f lg = (Some f, lg)"
| "decorate_loop ev (dec # decs) f lg =
     (let lg1 = dbg ''decorator: %s %s'' lg;
          dec_results = eval_statement ev dec
      in if length dec_results = 0
         then (None, warning ''decorator not found: %s on %s'' lg1)
         else
           let decorator = last dec_results;
               dec_results' = butlast dec_results;
               lg2 = (if dec_results' \<noteq> []
                      then warning ''multiple decorators found %s %s'' lg1 else lg1);
               old_func = Function f True;
               wrappers = execute ev decorator [old_func]
           in case wrappers of
                [] \<Rightarrow> (None, warning ''no wrappers found %s'' lg2)
              | w # ws \<Rightarrow>
                  let lg3 = (if length wrappers > 1
                             then warning ''multiple wrappers found %s %s'' lg2 else lg2)
                  in decorate_loop ev decs w (dbg ''decorator end %s'' lg3))"

text \<open>
  The method of the wrapper \<^verbatim>\<open>Function(evaluator, base_func, is_decorated)\<close>. The
  evaluator is a function of the statement here, so the memoisation of the method does
  not show in its result.
\<close>

definition decorated_func ::
  "evaluator \<Rightarrow> tree \<Rightarrow> element \<Rightarrow> bool \<Rightarrow> log \<Rightarrow> element option \<times> log" where
  "decorated_func ev tr base_func is_decorated lg =
     (case (if \<not> is_decorated
            then decorate_loop ev (rev (decorators tr base_func)) base_func lg
            else (Some base_func, lg)) of
        (None, lg') \<Rightarrow> (None, lg')
      | (Some f, lg') \<Rightarrow>
          (Some (if isinstance f [T_pr_Function] then Function f True else f), lg'))"

text \<open>
  \<^verbatim>\<open>self._decorated_func() or Function(self._evaluator, self.base_func, True)\<close>:
  Python's \<^verbatim>\<open>or\<close> yields its right operand when the left one is \<^verbatim>\<open>None\<close> or
  any other object whose truth value is false; \<open>truthy\<close> is the truth value of an
  object.
\<close>

definition get_decorated_func ::
  "(element \<Rightarrow> bool) \<Rightarrow> evaluator \<Rightarrow> tree \<Rightarrow> element \<Rightarrow> bool \<Rightarrow> log \<Rightarrow> element \<times> log" where
  "get_decorated_func truthy ev tr base_func is_decorated lg =
     (case decorated_func ev tr base_func is_decorated lg of
        (None, lg') \<Rightarrow> (Function base_func True, lg')
      | (Some f, lg') \<Rightarrow> (if truthy f then f else Function base_func True, lg'))"

section \<open>\<^verbatim>\<open>Class.get_subscope_by_name\<close> and \<^verbatim>\<open>Instance.py__call__\<close>\<close>


text \<open>
  \<^verbatim>\<open>s.subscopes\<close>: \<^verbatim>\<open>Class.__getattr__\<close> forwards the attribute to the wrapped
  parser class; any other object answers for itself.
\<close>

fun subscopes_of :: "tree \<Rightarrow> element \<Rightarrow> element list" where
  "subscopes_of tr (Class base) = subscopes tr base"
| "subscopes_of tr s = subscopes tr s"






section \<open>\<^verbatim>\<open>Class.py__mro__\<close>\<close>

text \<open>
  Modelled from the spec: the decorator \<^verbatim>\<open>memoize_default(default=())\<close>, whose code
  is not part of the module. The session keeps, for the method, a table from the receiver
  to the value computed for it; nothing is ever removed from it. A call whose receiver is
  in the table returns the stored value. Otherwise the default is stored as a placeholder
  while the computation is in flight (a call that re-enters the same receiver gets the
  placeholder), and the computed value replaces it at the end.
\<close>

type_synonym memo = "element \<rightharpoonup> element list"

text \<open>The local function \<^verbatim>\<open>add\<close>; \<^verbatim>\<open>cls not in mro\<close> compares by identity.\<close>

definition add :: "element \<Rightarrow> element list \<Rightarrow> element list" where
  "add cls mro = (if cls \<notin> set mro then mro @ [cls] else mro)"

text \<open>
  The loop \<^verbatim>\<open>for cls in self.py__bases__(...)\<close> with its inner loop over
  \<^verbatim>\<open>cls.py__mro__(evaluator)\<close>. The call of \<^verbatim>\<open>py__mro__\<close> on the base is the
  argument \<open>rec\<close>; it may change the table and, in the model, run out of fuel.
\<close>

fun mro_loop ::
  "(element \<Rightarrow> memo \<Rightarrow> (element list \<times> memo) option) \<Rightarrow> element list \<Rightarrow> element list \<Rightarrow> memo
     \<Rightarrow> (element list \<times> memo) option" where
  "mro_loop rec [] mro m = Some (mro, m)"
| "mro_loop rec (cls # rest) mro m =
     (case rec cls m of
        None \<Rightarrow> None
      | Some (cls_mro, m') \<Rightarrow> mro_loop rec rest (fold add cls_mro (add cls mro)) m')"

text \<open>
  \<^verbatim>\<open>py__mro__\<close> of an object of the hierarchy. For the wrapper \<^verbatim>\<open>Class(evaluator, base)\<close>
  it is the memoised method of the module; for any other object (a compiled object) it is
  the resolution order that the compiled model reports. The first argument is the fuel:
  the depth of calls that the model follows before it gives up with \<open>None\<close>.
\<close>

primrec py__mro ::
  "nat \<Rightarrow> evaluator \<Rightarrow> tree \<Rightarrow> element \<Rightarrow> memo \<Rightarrow> (element list \<times> memo) option" where
  "py__mro 0 ev tr self m = None"
| "py__mro (Suc fuel) ev tr self m =
     (case self of
        Class base \<Rightarrow>
          (case m self of
             Some rv \<Rightarrow> Some (rv, m)
           | None \<Rightarrow>
               (case mro_loop (py__mro fuel ev tr) (fst (py__bases ev tr base [])) [self]
                       (m(self \<mapsto> [])) of
                  None \<Rightarrow> None
                | Some (mro, m') \<Rightarrow> Some (mro, m'(self \<mapsto> mro))))
      | _ \<Rightarrow> Some (compiled_py__mro tr self, m))"


section \<open>\<^verbatim>\<open>FunctionExecution.get_return_types\<close>\<close>





text \<open>
  The statement of a return point that is not \<^verbatim>\<open>None\<close>: \<^verbatim>\<open>r.stmt\<close> for a keyword
  statement (it may be \<^verbatim>\<open>None\<close>), the entry itself otherwise (lambdas).
\<close>

fun return_stmt :: "element \<Rightarrow> element option" where
  "return_stmt (PrKeywordStatement k stmt) = stmt"
| "return_stmt r = Some r"




section \<open>The wrapper factory \<^verbatim>\<open>wrap\<close>\<close>

text \<open>
  Here objects have an identity: a reference into the heap of the session. A heap object
  is a parser class, function or module, one of the three wrappers with the reference of
  the node it wraps, or an object of any other kind.
\<close>

type_synonym ref = nat

datatype object =
    A_pr_Class
  | A_pr_Function
  | A_pr_Module
  | A_other
  | A_Class ref
  | A_Function ref bool
  | A_ModuleWrapper ref

text \<open>
  The session: the heap, the table of the caching metaclass, and the next free reference.
\<close>

record session =
  heap :: "ref \<rightharpoonup> object"
  cache :: "object \<rightharpoonup> ref"
  next_ref :: ref

text \<open>
  Modelled from the spec: the metaclass \<^verbatim>\<open>CachedMetaClass\<close> of the wrappers, whose
  code is not part of the module. Constructing a wrapper looks its class and arguments
  up in the table of the session; a hit returns the object built before, a miss builds the
  object at a fresh reference and records it. Nothing is ever removed from the table.
\<close>

definition cached_new :: "object \<Rightarrow> session \<Rightarrow> ref \<times> session" where
  "cached_new new s =
     (case cache s new of
        Some r \<Rightarrow> (r, s)
      | None \<Rightarrow>
          let r = next_ref s
          in (r, s\<lparr> heap := (heap s)(r \<mapsto> new), cache := (cache s)(new \<mapsto> r),
                    next_ref := Suc r \<rparr>))"

text \<open>
  The factory \<^verbatim>\<open>wrap(evaluator, element)\<close>. The tests are those of the source, in
  its order; a \<^verbatim>\<open>ModuleWrapper\<close> is a \<^verbatim>\<open>pr.Module\<close> that the third test excludes,
  so it falls through to the last branch like every object of another kind.
\<close>

definition wrap :: "session \<Rightarrow> ref \<Rightarrow> ref \<times> session" where
  "wrap s element =
     (case heap s element of
        Some A_pr_Class \<Rightarrow> cached_new (A_Class element) s
      | Some A_pr_Function \<Rightarrow> cached_new (A_Function element False) s
      | Some A_pr_Module \<Rightarrow> cached_new (A_ModuleWrapper element) s
      | _ \<Rightarrow> (element, s))"

text \<open>Further calls of the factory in the same session.\<close>

fun wrap_all :: "session \<Rightarrow> ref list \<Rightarrow> session" where
  "wrap_all s [] = s"
| "wrap_all s (e # es) = wrap_all (snd (wrap s e)) es"

text \<open>
  A session is well formed when the references in use lie below the next free one and
  every entry of the table points to the object it was made for. \<open>spec_wrapper\<close> is
  the wrapper that the specification assigns to a node: Class for a class node, Function
  for a function node, ModuleWrapper for a module node, none for any other object.
\<close>

definition session_ok :: "session \<Rightarrow> bool" where
  "session_ok s =
     ((\<forall>r. r \<in> dom (heap s) \<longrightarrow> r < next_ref s) \<and>
      (\<forall>k r. cache s k = Some r \<longrightarrow> heap s r = Some k))"

definition spec_wrapper :: "object \<Rightarrow> ref \<Rightarrow> object option" where
  "spec_wrapper node element =
     (case node of
        A_pr_Class \<Rightarrow> Some (A_Class element)
      | A_pr_Function \<Rightarrow> Some (A_Function element False)
      | A_pr_Module \<Rightarrow> Some (A_ModuleWrapper element)
      | _ \<Rightarrow> None)"

definition extends :: "session \<Rightarrow> session \<Rightarrow> bool" where
  "extends s s' = (heap s \<subseteq>\<^sub>m heap s' \<and> cache s \<subseteq>\<^sub>m cache s')"

section \<open>\<^verbatim>\<open>Instance.get_self_attributes\<close>\<close>

text \<open>
  \<^verbatim>\<open>_get_func_self_name\<close>: the name of the first parameter, \<^verbatim>\<open>None\<close> when the
  function has no parameter (\<^verbatim>\<open>IndexError\<close>).
\<close>

definition get_func_self_name :: "tree \<Rightarrow> element \<Rightarrow> string option" where
  "get_func_self_name tr func = (case param_names tr func of [] \<Rightarrow> None | p # ps \<Rightarrow> Some p)"

text \<open>\<^verbatim>\<open>_get_method_execution\<close> of the instance \<open>self\<close> with the arguments \<open>var_args\<close>.\<close>

definition get_method_execution :: "element \<Rightarrow> element list \<Rightarrow> element \<Rightarrow> element" where
  "get_method_execution self var_args func =
     FunctionExecution (get_instance_el self func True) var_args"

text \<open>
  \<^verbatim>\<open>sub.get_defined_names()\<close>: a FunctionExecution puts its bound parameters before
  the names of its scope; a parser function has the names of its scope.
\<close>

fun get_defined_names :: "tree \<Rightarrow> element \<Rightarrow> name list" where
  "get_defined_names tr (FunctionExecution base var_args) =
     get_params_names tr base var_args @ defined_names tr (FunctionExecution base var_args)"
| "get_defined_names tr sub = defined_names tr sub"

text \<open>
  The local function \<^verbatim>\<open>add_self_dot_name\<close>, given \<^verbatim>\<open>n.names[1:]\<close>: the copy keeps
  these segments, takes the last of them as its source text and is bound to the instance.
  It is only called for a name of two segments, so the list is never empty there.
\<close>

fun add_self_dot_name :: "element \<Rightarrow> string list \<Rightarrow> element list \<Rightarrow> element list" where
  "add_self_dot_name self [] names = names"
| "add_self_dot_name self (a # as) names =
     names @ [get_instance_el self (PrName a as (last (a # as))) False]"

text \<open>The loop \<^verbatim>\<open>for n in sub.get_defined_names()\<close>.\<close>

fun defined_names_loop :: "element \<Rightarrow> string \<Rightarrow> name list \<Rightarrow> element list \<Rightarrow> element list" where
  "defined_names_loop self self_name [] names = names"
| "defined_names_loop self self_name ((first, rest, code) # ns) names =
     (if first = self_name \<and> length (first # rest) = 2
      then defined_names_loop self self_name ns (add_self_dot_name self rest names)
      else defined_names_loop self self_name ns names)"

text \<open>The loop \<^verbatim>\<open>for sub in self.base.subscopes\<close>.\<close>

fun subscopes_loop ::
  "tree \<Rightarrow> element \<Rightarrow> element list \<Rightarrow> element list \<Rightarrow> element list \<Rightarrow> element list" where
  "subscopes_loop tr self var_args [] names = names"
| "subscopes_loop tr self var_args (sub # subs) names =
     (if isinstance sub [T_pr_Class] then subscopes_loop tr self var_args subs names
      else case get_func_self_name tr sub of
             None \<Rightarrow> subscopes_loop tr self var_args subs names
           | Some self_name \<Rightarrow>
               if self_name = [] then subscopes_loop tr self var_args subs names
               else
                 let sub' = (if name_code tr sub = ''__init__''
                             then (if decorators tr sub = []
                                   then get_method_execution self var_args sub else sub)
                             else sub)
                 in subscopes_loop tr self var_args subs
                      (defined_names_loop self self_name (get_defined_names tr sub') names))"

text \<open>
  \<^verbatim>\<open>Class.py__call__\<close>, which is what \<^verbatim>\<open>evaluator.execute(s)\<close> runs for a Class
  wrapper \<open>s\<close>.
\<close>

definition Class_py__call :: "element \<Rightarrow> element list \<Rightarrow> element list" where
  "Class_py__call self params = [Instance self params]"

text \<open>
  The loops \<^verbatim>\<open>for s in self.base.py__bases__(...)\<close> and
  \<^verbatim>\<open>for inst in self._evaluator.execute(s)\<close>; \<open>rec\<close> is the call
  \<^verbatim>\<open>inst.get_self_attributes()\<close>.
\<close>

fun insts_loop ::
  "(element \<Rightarrow> memo \<Rightarrow> (element list \<times> memo) option) \<Rightarrow> element list \<Rightarrow> element list \<Rightarrow> memo
     \<Rightarrow> (element list \<times> memo) option" where
  "insts_loop rec [] names m = Some (names, m)"
| "insts_loop rec (inst # insts) names m =
     (case rec inst m of
        None \<Rightarrow> None
      | Some (attrs, m') \<Rightarrow> insts_loop rec insts (names @ attrs) m')"

fun attr_bases_loop ::
  "(element \<Rightarrow> memo \<Rightarrow> (element list \<times> memo) option) \<Rightarrow> element list \<Rightarrow> element list \<Rightarrow> memo
     \<Rightarrow> (element list \<times> memo) option" where
  "attr_bases_loop rec [] names m = Some (names, m)"
| "attr_bases_loop rec (s # ss) names m =
     (if \<not> isinstance s [T_CompiledObject]
      then (case insts_loop rec (Class_py__call s []) names m of
              None \<Rightarrow> None
            | Some (names', m') \<Rightarrow> attr_bases_loop rec ss names' m')
      else attr_bases_loop rec ss names m)"

text \<open>
  The method, memoised with the default \<^verbatim>\<open>[]\<close> (see \<open>memo\<close> above), for the
  instance \<^verbatim>\<open>Instance(evaluator, Class(evaluator, base), var_args)\<close>. The first
  argument is the fuel. Instances of other objects do not come up in the loops of the
  method; the compiled model answers for them with no attributes.
\<close>

primrec get_self_attributes ::
  "nat \<Rightarrow> evaluator \<Rightarrow> tree \<Rightarrow> element \<Rightarrow> memo \<Rightarrow> (element list \<times> memo) option" where
  "get_self_attributes 0 ev tr self m = None"
| "get_self_attributes (Suc fuel) ev tr self m =
     (case self of
        Instance (Class base) var_args \<Rightarrow>
          (case m self of
             Some rv \<Rightarrow> Some (rv, m)
           | None \<Rightarrow>
               (case attr_bases_loop (get_self_attributes fuel ev tr)
                       (fst (py__bases ev tr base []))
                       (subscopes_loop tr self var_args (subscopes_of tr (Class base)) [])
                       (m(self \<mapsto> [])) of
                  None \<Rightarrow> None
                | Some (names, m') \<Rightarrow> Some (names, m'(self \<mapsto> names))))
      | _ \<Rightarrow> Some ([], m))"

section \<open>Recursive evaluation of return types\<close>













section \<open>Concrete programs\<close>

text \<open>
  A tree without any attribute, in which the resolution order of a compiled object is
  the object alone (as for \<^verbatim>\<open>object\<close>), and a function \<^verbatim>\<open>PrFunction 10\<close> with the single
  decorator statement \<^verbatim>\<open>PrStatement 1\<close>. Under \<open>ev_amb\<close> the decorator statement
  evaluates to two candidates, each of which returns a function of its own when it is
  executed; under \<open>ev_none\<close> nothing evaluates to anything.
\<close>

definition empty_tree :: tree where
  "empty_tree = \<lparr> supers_table = [], subscopes = (\<lambda>_. []), name_code = (\<lambda>_. []),
     param_names = (\<lambda>_. []), decorators = (\<lambda>_. []), defined_names = (\<lambda>_. []),
     get_params_names = (\<lambda>_ _. []),
     compiled_py__mro = (\<lambda>c. [c]), listeners = (\<lambda>_. []), returns = (\<lambda>_. []),
     parent = (\<lambda>x. x), is_generator = (\<lambda>_. False) \<rparr>"

definition tr_dec :: tree where
  "tr_dec = empty_tree \<lparr> decorators := (\<lambda>f. if f = PrFunction 10 then [PrStatement 1] else []) \<rparr>"

definition ev_amb :: evaluator where
  "ev_amb = \<lparr> eval_statement = (\<lambda>s. if s = PrStatement 1 then [CompiledObject 1, CompiledObject 2] else []),
     execute = (\<lambda>c args. if c = CompiledObject 1 then [PrFunction 11]
                          else if c = CompiledObject 2 then [PrFunction 12] else []) \<rparr>"

definition ev_none :: evaluator where
  "ev_none = \<lparr> eval_statement = (\<lambda>s. []), execute = (\<lambda>c args. []) \<rparr>"

text \<open>
  The classes \<^verbatim>\<open>A(object)\<close>, \<^verbatim>\<open>B(A)\<close> and \<^verbatim>\<open>C(B, A)\<close>: the statements
  100, 101 and 102 are the header expressions \<^verbatim>\<open>object\<close>, \<^verbatim>\<open>A\<close> and \<^verbatim>\<open>B\<close>.
  \<open>abc_mro\<close> is the resolution order of each class of this program, and \<open>abc_ok S\<close>
  holds of a table whose entries outside \<open>S\<close> are these orders.
\<close>

definition node_A :: element where "node_A = PrClass 1"
definition node_B :: element where "node_B = PrClass 2"

definition tr_abc :: tree where
  "tr_abc = empty_tree \<lparr> supers_table :=
     [(1, [PrStatement 100]), (2, [PrStatement 101]), (3, [PrStatement 102, PrStatement 101])] \<rparr>"

definition ev_abc :: evaluator where
  "ev_abc = \<lparr> eval_statement = (\<lambda>s. if s = PrStatement 100 then [object_obj]
                                    else if s = PrStatement 101 then [Class node_A]
                                    else if s = PrStatement 102 then [Class node_B] else []),
     execute = (\<lambda>c args. []) \<rparr>"











text \<open>A session with a parser class, a parser function and a statement.\<close>

definition session0 :: session where
  "session0 = \<lparr> heap = [0 \<mapsto> A_pr_Class, 1 \<mapsto> A_pr_Function, 2 \<mapsto> A_other],
                 cache = Map.empty, next_ref = 3 \<rparr>"

text \<open>
  A class \<^verbatim>\<open>D\<close> with a decorated constructor that assigns \<^verbatim>\<open>self.x\<close>, a method
  \<^verbatim>\<open>m(this)\<close> that assigns \<^verbatim>\<open>this.z\<close>, \<^verbatim>\<open>this.a.b\<close> and \<^verbatim>\<open>other.w\<close>,
  and a nested class.
\<close>

definition node_D :: element where "node_D = PrClass 7"

definition init_D :: element where "init_D = PrFunction 70"

definition tr_attr :: tree where
  "tr_attr = empty_tree \<lparr>
     supers_table := [(7, [])],
     subscopes := (\<lambda>s. if s = node_D then [init_D, PrFunction 71, PrClass 72] else []),
     name_code := (\<lambda>s. if s = init_D then ''__init__'' else if s = PrFunction 71 then ''m'' else []),
     param_names := (\<lambda>f. if f = init_D then [''self''] else if f = PrFunction 71 then [''this''] else []),
     decorators := (\<lambda>f. if f = init_D then [PrStatement 50] else []),
     defined_names := (\<lambda>f. if f = init_D then [(''self'', [''x''], ''self.x''), (''y'', [], ''y'')]
                            else if f = PrFunction 71
                            then [(''this'', [''z''], ''this.z''), (''this'', [''a'', ''b''], ''this.a.b''),
                                  (''other'', [''w''], ''other.w'')]
                            else []) \<rparr>"

definition inst_D :: element where "inst_D = Instance (Class node_D) []"







section \<open>The specification's descriptions, for comparison with the code\<close>

text \<open>
  The kinds of element that the specification lists as returned unchanged by
  \<^verbatim>\<open>get_instance_el\<close>, and the promotion of parser functions and classes.
\<close>

fun spec_excluded_kind :: "element \<Rightarrow> bool" where
  "spec_excluded_kind (Instance _ _) = True"
| "spec_excluded_kind (CompiledObject _) = True"
| "spec_excluded_kind (PrOperator _) = True"
| "spec_excluded_kind (Token _) = True"
| "spec_excluded_kind (PrModule _) = True"
| "spec_excluded_kind (ModuleWrapper _) = True"
| "spec_excluded_kind (FunctionExecution _ _) = True"
| "spec_excluded_kind _ = False"

fun spec_promoted :: "element \<Rightarrow> element" where
  "spec_promoted (PrFunction n) = Function (PrFunction n) False"
| "spec_promoted (PrClass n) = Class (PrClass n)"
| "spec_promoted var = var"


text \<open>
  The linearisation in the specification's words: the list that starts with the class
  itself and goes through the bases from left to right, each followed by its own
  resolution order, where an element is kept at its first occurrence only.
  \<open>stored_mro\<close> is the resolution order of a base: the entry of the table for a Class
  wrapper, the order reported by the compiled model otherwise; a base that is the class
  itself is in flight and contributes the empty placeholder.
\<close>

definition keep_first :: "'a list \<Rightarrow> 'a list" where
  "keep_first xs = rev (remdups (rev xs))"






definition table_classes :: "tree \<Rightarrow> element set" where
  "table_classes tr = (\<lambda>n. Class (PrClass n)) ` fst ` set (supers_table tr)"




text \<open>
  Return-type inference in the specification's words: the return points that have a
  statement, in source order; those up to and including the first one classified
  REACHABLE are processed; each processed one that is not UNREACHABLE contributes the
  types of its statement.
\<close>

definition spec_return_points :: "element option list \<Rightarrow> (element \<times> element) list" where
  "spec_return_points rs =
     concat (map (\<lambda>r. case r of None \<Rightarrow> []
                      | Some r' \<Rightarrow> (case return_stmt r' of None \<Rightarrow> [] | Some stmt \<Rightarrow> [(r', stmt)])) rs)"



text \<open>
  Self-attribute harvesting in the specification's words. A harvested name is re-rooted
  onto the instance: the receiver segment is dropped and the remaining segment is its
  source text. The names scanned for a method are those of its FunctionExecution when
  the method is an undecorated constructor, and its own defined names otherwise. A
  method contributes the re-rooted names of the form \<^verbatim>\<open><first-param>.<attr>\<close>;
  a nested class, and a function whose first parameter name is not determinable,
  contribute nothing.
\<close>

definition spec_reroot :: "element \<Rightarrow> name \<Rightarrow> element" where
  "spec_reroot self n =
     (case n of (first, rest, code) \<Rightarrow> InstanceElement self (PrName (last rest) [] (last rest)) False)"

definition spec_scanned :: "tree \<Rightarrow> element \<Rightarrow> element list \<Rightarrow> element \<Rightarrow> name list" where
  "spec_scanned tr self var_args sub =
     (if name_code tr sub = ''__init__'' \<and> decorators tr sub = []
      then get_params_names tr (get_instance_el self sub True) var_args
           @ defined_names tr (FunctionExecution (get_instance_el self sub True) var_args)
      else get_defined_names tr sub)"

definition spec_method_names :: "tree \<Rightarrow> element \<Rightarrow> element list \<Rightarrow> element \<Rightarrow> element list" where
  "spec_method_names tr self var_args sub =
     (if isinstance sub [T_pr_Class] \<or> param_names tr sub = [] \<or> hd (param_names tr sub) = []
      then []
      else map (spec_reroot self)
             (filter (\<lambda>(first, rest, code). first = hd (param_names tr sub) \<and> length rest = 1)
                (spec_scanned tr self var_args sub)))"

text \<open>Notions used in the proofs about \<^verbatim>\<open>get_self_attributes\<close>.\<close>

definition table_instances :: "tree \<Rightarrow> element set" where
  "table_instances tr = (\<lambda>c. Instance c []) ` table_classes tr"

definition attr_rec_ok :: "(element \<Rightarrow> memo \<Rightarrow> (element list \<times> memo) option) \<Rightarrow> bool" where
  "attr_rec_ok rec = (\<forall>inst m r m1. rec inst m = Some (r, m1) \<longrightarrow> m \<subseteq>\<^sub>m m1)"





section \<open>Properties of \<^verbatim>\<open>get_instance_el\<close>\<close>

lemma get_instance_el_cases:
  "get_instance_el instance var cv =
     (if spec_excluded_kind var then var else InstanceElement instance (spec_promoted var) cv)"
  by (cases var) (simp_all add: get_instance_el_def isinstance_def)

text \<open>
  Claim C10. \<^verbatim>\<open>get_instance_el\<close> returns an Instance, a compiled object, an operator,
  a token, a module (wrapped or not) or a FunctionExecution unchanged; every other element
  is wrapped in an InstanceElement, a parser function or class being promoted to its
  Function or Class wrapper first. The result is an InstanceElement exactly for the
  elements that are not excluded, and the children that an InstanceElement hands out
  are rebound in the same way, so that a child of an excluded kind is handed out bare.
\<close>

theorem get_instance_el_excluded_kinds:
  "get_instance_el instance var cv =
     (if spec_excluded_kind var then var else InstanceElement instance (spec_promoted var) cv)
   \<and> isinstance (get_instance_el instance var cv) [T_InstanceElement] = (\<not> spec_excluded_kind var)
   \<and> instance_element_iter children (InstanceElement instance var cv) =
       map (\<lambda>el. if spec_excluded_kind el then el
                 else InstanceElement instance (spec_promoted el) cv) (children var)"
proof -
  have wrapped: "isinstance (get_instance_el instance var cv) [T_InstanceElement]
                 = (\<not> spec_excluded_kind var)"
    by (cases var) (simp_all add: get_instance_el_def isinstance_def)
  show ?thesis
    using wrapped by (simp add: get_instance_el_cases)
qed

section \<open>Properties of \<^verbatim>\<open>py__bases__\<close>\<close>




section \<open>Properties of the decorator resolution\<close>

lemma decorate_loop_log_mem:
  "x \<in> set lg \<Longrightarrow> x \<in> set (snd (decorate_loop ev decs f lg))"
  by (induction decs arbitrary: f lg)
     (auto simp: Let_def warning_def dbg_def split: list.splits)

lemma decorate_loop_log: "set lg \<subseteq> set (snd (decorate_loop ev decs f lg))"
  using decorate_loop_log_mem by blast

lemma decorate_loop_abort:
  assumes "\<exists>dec \<in> set decs. eval_statement ev dec = []
             \<or> (\<forall>f. execute ev (last (eval_statement ev dec)) [Function f True] = [])"
  shows "fst (decorate_loop ev decs f lg) = None"
  using assms
  by (induction decs arbitrary: f lg) (auto simp: Let_def split: list.splits)

lemma decorate_loop_None:
  assumes "fst (decorate_loop ev decs f lg) = None"
  shows "\<exists>dec \<in> set decs. eval_statement ev dec = []
             \<or> (\<exists>f. execute ev (last (eval_statement ev dec)) [Function f True] = [])"
  using assms
proof (induction decs arbitrary: f lg)
  case Nil
  then show ?case by simp
next
  case (Cons dec decs)
  show ?case
  proof (cases "eval_statement ev dec = []")
    case True
    then show ?thesis by auto
  next
    case False
    show ?thesis
    proof (cases "execute ev (last (eval_statement ev dec)) [Function f True]")
      case Nil
      then show ?thesis by auto
    next
      case (Cons w ws)
      with False Cons.prems obtain lg' where "fst (decorate_loop ev decs w lg') = None"
        by (auto simp: Let_def)
      from Cons.IH [OF this] show ?thesis by auto
    qed
  qed
qed

text \<open>
  Claim C4, as amended. Whenever a decorator statement evaluates to more than one
  candidate, \<^verbatim>\<open>_decorated_func\<close> invokes the last candidate of the result list (the
  one that \<^verbatim>\<open>pop()\<close> takes) on the wrapper of the function reached so far, marked as
  decorated, and logs the warning about multiple decorators; which candidate is taken
  is a function of the result list. The first conjunct is one pass of the loop at any
  step, the third the whole method for a function with a single decorator.
\<close>

theorem decorate_loop_last_candidate:
  assumes "1 < length (eval_statement ev dec)"
  shows "decorate_loop ev (dec # decs) f lg =
           (let lg2 = warning ''multiple decorators found %s %s'' (dbg ''decorator: %s %s'' lg)
            in case execute ev (last (eval_statement ev dec)) [Function f True] of
                 [] \<Rightarrow> (None, warning ''no wrappers found %s'' lg2)
               | w # ws \<Rightarrow>
                   decorate_loop ev decs w
                     (dbg ''decorator end %s''
                        (if ws \<noteq> [] then warning ''multiple wrappers found %s %s'' lg2 else lg2)))
         \<and> (WARNING, ''multiple decorators found %s %s'')
             \<in> set (snd (decorate_loop ev (dec # decs) f lg))
         \<and> (decorators tr base_func = [dec] \<longrightarrow>
              fst (decorated_func ev tr base_func False lg) =
                (case execute ev (last (eval_statement ev dec)) [Function base_func True] of
                   [] \<Rightarrow> None
                 | w # ws \<Rightarrow> Some (if isinstance w [T_pr_Function] then Function w True else w)))"
proof -
  from assms have ne: "eval_statement ev dec \<noteq> []" by auto
  from assms have many: "butlast (eval_statement ev dec) \<noteq> []"
    by (cases "eval_statement ev dec" rule: rev_cases) auto
  have step: "decorate_loop ev (dec # decs) f lg =
           (let lg2 = warning ''multiple decorators found %s %s'' (dbg ''decorator: %s %s'' lg)
            in case execute ev (last (eval_statement ev dec)) [Function f True] of
                 [] \<Rightarrow> (None, warning ''no wrappers found %s'' lg2)
               | w # ws \<Rightarrow>
                   decorate_loop ev decs w
                     (dbg ''decorator end %s''
                        (if ws \<noteq> [] then warning ''multiple wrappers found %s %s'' lg2 else lg2)))"
    for decs f lg
    using ne many by (simp add: Let_def split: list.splits)
  have logged: "(WARNING, ''multiple decorators found %s %s'')
             \<in> set (snd (decorate_loop ev (dec # decs) f lg))"
  proof (cases "execute ev (last (eval_statement ev dec)) [Function f True]")
    case Nil
    show ?thesis
      unfolding step Let_def Nil by (simp add: warning_def)
  next
    case (Cons w ws)
    have "(WARNING, ''multiple decorators found %s %s'') \<in> set (dbg ''decorator end %s''
                        (if ws \<noteq> [] then warning ''multiple wrappers found %s %s'' 
                        (warning ''multiple decorators found %s %s'' (dbg ''decorator: %s %s'' lg)) else 
                        (warning ''multiple decorators found %s %s'' (dbg ''decorator: %s %s'' lg))))"
      by (simp add: warning_def dbg_def)
    with decorate_loop_log show ?thesis
      unfolding step Let_def Cons by (simp only: list.case) blast
  qed
  have single: "decorators tr base_func = [dec] \<longrightarrow>
              fst (decorated_func ev tr base_func False lg) =
                (case execute ev (last (eval_statement ev dec)) [Function base_func True] of
                   [] \<Rightarrow> None
                 | w # ws \<Rightarrow> Some (if isinstance w [T_pr_Function] then Function w True else w))"
  proof
    assume "decorators tr base_func = [dec]"
    then have "decorated_func ev tr base_func False lg =
      (case decorate_loop ev (dec # []) base_func lg of
        (None, lg') \<Rightarrow> (None, lg')
      | (Some f, lg') \<Rightarrow>
          (Some (if isinstance f [T_pr_Function] then Function f True else f), lg'))"
      by (simp add: decorated_func_def)
    then show "fst (decorated_func ev tr base_func False lg) =
                (case execute ev (last (eval_statement ev dec)) [Function base_func True] of
                   [] \<Rightarrow> None
                 | w # ws \<Rightarrow> Some (if isinstance w [T_pr_Function] then Function w True else w))"
      unfolding step Let_def
      by (cases "execute ev (last (eval_statement ev dec)) [Function base_func True]") simp_all
  qed
  from step logged single show ?thesis by blast
qed

theorem decorate_loop_last_candidate_witness:
  "fst (decorated_func ev_amb tr_dec (PrFunction 10) False []) = Some (Function (PrFunction 12) True)
   \<and> (WARNING, ''multiple decorators found %s %s'')
        \<in> set (snd (decorate_loop ev_amb [PrStatement 1] (PrFunction 10) []))"
proof -
  have h: "1 < length (eval_statement ev_amb (PrStatement 1))" by (simp add: ev_amb_def)
  have d: "decorators tr_dec (PrFunction 10) = [PrStatement 1]" by (simp add: tr_dec_def empty_tree_def)
  from decorate_loop_last_candidate [OF h, of "[]" "PrFunction 10" "[]" tr_dec "PrFunction 10"] d
  show ?thesis by (simp add: ev_amb_def isinstance_def)
qed

text \<open>
  The claim C4 as stated fails: with the candidates \<^verbatim>\<open>[CompiledObject 1, CompiledObject 2]\<close>
  the result is the function returned by the second, last candidate, not the one returned
  by the first.
\<close>

theorem first_candidate_counterexample:
  "eval_statement ev_amb (PrStatement 1) = [CompiledObject 1, CompiledObject 2]
   \<and> execute ev_amb (CompiledObject 1) [Function (PrFunction 10) True] = [PrFunction 11]
   \<and> execute ev_amb (CompiledObject 2) [Function (PrFunction 10) True] = [PrFunction 12]
   \<and> decorated_func ev_amb tr_dec (PrFunction 10) False [] =
       (Some (Function (PrFunction 12) True),
        [(DBG, ''decorator: %s %s''), (WARNING, ''multiple decorators found %s %s''),
         (DBG, ''decorator end %s'')])"
  by (simp add: ev_amb_def tr_dec_def empty_tree_def decorated_func_def Let_def isinstance_def
        warning_def dbg_def)

text \<open>
  Claim C5. \<^verbatim>\<open>get_decorated_func\<close> always returns an object: when
  \<^verbatim>\<open>_decorated_func\<close> gives up (returns \<^verbatim>\<open>None\<close>), it returns the original
  function marked as decorated. \<^verbatim>\<open>_decorated_func\<close> gives up whenever some decorator
  of an undecorated function evaluates to no candidate or its candidate returns no
  wrapper, and only when a decorator has no candidate or the invoked candidate returned
  no wrapper. In every case the result is the fallback or the resolved function.
\<close>

theorem get_decorated_func_fallback:
  "(fst (decorated_func ev tr base_func d lg) = None \<longrightarrow>
      fst (get_decorated_func truthy ev tr base_func d lg) = Function base_func True)
   \<and> (\<not> d \<and> (\<exists>dec \<in> set (decorators tr base_func). eval_statement ev dec = []
             \<or> (\<forall>f. execute ev (last (eval_statement ev dec)) [Function f True] = []))
        \<longrightarrow> fst (decorated_func ev tr base_func d lg) = None)
   \<and> (fst (decorated_func ev tr base_func d lg) = None \<longrightarrow>
        \<not> d \<and> (\<exists>dec \<in> set (decorators tr base_func). eval_statement ev dec = []
             \<or> (\<exists>f. execute ev (last (eval_statement ev dec)) [Function f True] = [])))
   \<and> (fst (get_decorated_func truthy ev tr base_func d lg) = Function base_func True
        \<or> fst (decorated_func ev tr base_func d lg)
            = Some (fst (get_decorated_func truthy ev tr base_func d lg)))"
proof -
  have a: "fst (decorated_func ev tr base_func d lg) = None \<longrightarrow>
      fst (get_decorated_func truthy ev tr base_func d lg) = Function base_func True"
    by (auto simp: get_decorated_func_def split: prod.splits option.splits)
  have b: "\<not> d \<and> (\<exists>dec \<in> set (decorators tr base_func). eval_statement ev dec = []
             \<or> (\<forall>f. execute ev (last (eval_statement ev dec)) [Function f True] = []))
        \<longrightarrow> fst (decorated_func ev tr base_func d lg) = None"
  proof
    assume h: "\<not> d \<and> (\<exists>dec \<in> set (decorators tr base_func). eval_statement ev dec = []
             \<or> (\<forall>f. execute ev (last (eval_statement ev dec)) [Function f True] = []))"
    then have "\<exists>dec \<in> set (rev (decorators tr base_func)). eval_statement ev dec = []
             \<or> (\<forall>f. execute ev (last (eval_statement ev dec)) [Function f True] = [])"
      by simp
    from decorate_loop_abort [OF this]
    have "fst (decorate_loop ev (rev (decorators tr base_func)) base_func lg) = None" .
    with h show "fst (decorated_func ev tr base_func d lg) = None"
      by (cases "decorate_loop ev (rev (decorators tr base_func)) base_func lg")
         (simp add: decorated_func_def)
  qed
  have c: "fst (decorated_func ev tr base_func d lg) = None \<longrightarrow>
        \<not> d \<and> (\<exists>dec \<in> set (decorators tr base_func). eval_statement ev dec = []
             \<or> (\<exists>f. execute ev (last (eval_statement ev dec)) [Function f True] = []))"
  proof
    assume h: "fst (decorated_func ev tr base_func d lg) = None"
    then have nd: "\<not> d"
      by (auto simp: decorated_func_def split: prod.splits option.splits if_splits)
    with h have "fst (decorate_loop ev (rev (decorators tr base_func)) base_func lg) = None"
      by (cases "decorate_loop ev (rev (decorators tr base_func)) base_func lg")
         (auto simp: decorated_func_def split: option.splits)
    from decorate_loop_None [OF this] nd
    show "\<not> d \<and> (\<exists>dec \<in> set (decorators tr base_func). eval_statement ev dec = []
             \<or> (\<exists>f. execute ev (last (eval_statement ev dec)) [Function f True] = []))"
      by simp
  qed
  have e: "fst (get_decorated_func truthy ev tr base_func d lg) = Function base_func True
        \<or> fst (decorated_func ev tr base_func d lg)
            = Some (fst (get_decorated_func truthy ev tr base_func d lg))"
    by (auto simp: get_decorated_func_def split: prod.splits option.splits)
  from a b c e show ?thesis by blast
qed

theorem get_decorated_func_fallback_witness:
  "fst (decorated_func ev_none tr_dec (PrFunction 10) False []) = None
   \<and> fst (get_decorated_func (\<lambda>x. True) ev_none tr_dec (PrFunction 10) False [])
        = Function (PrFunction 10) True"
proof -
  have h: "\<not> False \<and> (\<exists>dec \<in> set (decorators tr_dec (PrFunction 10)).
             eval_statement ev_none dec = []
             \<or> (\<forall>f. execute ev_none (last (eval_statement ev_none dec)) [Function f True] = []))"
    by (simp add: tr_dec_def empty_tree_def ev_none_def)
  from get_decorated_func_fallback [of ev_none tr_dec "PrFunction 10" False "[]" "\<lambda>x. True"] h
  show ?thesis by simp
qed

section \<open>Properties of \<^verbatim>\<open>py__mro__\<close>\<close>

subsection \<open>The loop appends first occurrences\<close>

lemma set_keep_first [simp]: "set (keep_first xs) = set xs"
  by (simp add: keep_first_def)

lemma distinct_keep_first [simp]: "distinct (keep_first xs)"
  by (simp add: keep_first_def)










lemma finite_table_classes: "finite (table_classes tr)"
  by (simp add: table_classes_def)

lemma card_table_classes: "card (table_classes tr) \<le> length (supers_table tr)"
proof -
  have "card (table_classes tr) \<le> card (fst ` set (supers_table tr))"
    unfolding table_classes_def by (rule card_image_le) simp
  also have "\<dots> \<le> card (set (supers_table tr))"
    by (rule card_image_le) simp
  also have "\<dots> \<le> length (supers_table tr)"
    by (rule card_length)
  finally show ?thesis .
qed

lemma bases_outside_table:
  assumes "Class base \<notin> table_classes tr"
  shows "fst (py__bases ev tr base []) = [object_obj]"
proof -
  have "supers tr base = []"
  proof (cases base)
    case (PrClass n)
    with assms have "n \<notin> fst ` set (supers_table tr)"
      by (auto simp: table_classes_def)
    then have "map_of (supers_table tr) n = None"
      by (simp add: map_of_eq_None_iff)
    with PrClass show ?thesis by simp
  qed simp_all
  then show ?thesis by (simp add: py__bases_def)
qed





subsection \<open>The classes A, B and C\<close>




lemma compiled_abc: "compiled_py__mro tr_abc c = [c]"
  by (simp add: tr_abc_def empty_tree_def)

lemma mro_object: "py__mro (Suc k) ev_abc tr_abc object_obj m = Some ([object_obj], m)"
  by (simp add: object_obj_def compiled_abc)











subsection \<open>The resolution order\<close>



section \<open>Properties of the call protocol of an Instance\<close>






section \<open>Properties of the return-type inference\<close>

lemma spec_return_points_simps [simp]:
  "spec_return_points [] = []"
  "spec_return_points (None # rs) = spec_return_points rs"
  "spec_return_points (Some r # rs) =
     (case return_stmt r of None \<Rightarrow> [] | Some stmt \<Rightarrow> [(r, stmt)]) @ spec_return_points rs"
  by (simp_all add: spec_return_points_def)





section \<open>Properties of the wrapper factory\<close>

lemma extends_refl: "extends s s"
  by (simp add: extends_def)

lemma extends_trans:
  assumes "extends s t" and "extends t u"
  shows "extends s u"
proof -
  from assms have h: "heap s \<subseteq>\<^sub>m heap t" "heap t \<subseteq>\<^sub>m heap u"
    and c: "cache s \<subseteq>\<^sub>m cache t" "cache t \<subseteq>\<^sub>m cache u"
    by (simp_all add: extends_def)
  from map_le_trans [OF h] map_le_trans [OF c] show ?thesis
    by (simp add: extends_def)
qed

lemma cached_new_hit:
  "cache s k = Some r \<Longrightarrow> cached_new k s = (r, s)"
  by (simp add: cached_new_def)

lemma cached_new_miss:
  "cache s k = None \<Longrightarrow>
     cached_new k s = (next_ref s, s\<lparr> heap := (heap s)(next_ref s \<mapsto> k),
                                       cache := (cache s)(k \<mapsto> next_ref s),
                                       next_ref := Suc (next_ref s) \<rparr>)"
  by (simp add: cached_new_def Let_def)

lemma cached_new_ok:
  assumes "session_ok s"
  shows "session_ok (snd (cached_new k s)) \<and> extends s (snd (cached_new k s))
         \<and> cache (snd (cached_new k s)) k = Some (fst (cached_new k s))
         \<and> heap (snd (cached_new k s)) (fst (cached_new k s)) = Some k"
proof (cases "cache s k")
  case (Some r)
  from assms Some have "heap s r = Some k" by (simp add: session_ok_def)
  with assms Some show ?thesis
    by (simp add: cached_new_hit extends_refl)
next
  case None
  let ?n = "next_ref s"
  let ?s' = "s\<lparr> heap := (heap s)(?n \<mapsto> k), cache := (cache s)(k \<mapsto> ?n), next_ref := Suc ?n \<rparr>"
  from assms have below: "\<And>r. r \<in> dom (heap s) \<Longrightarrow> r < ?n"
    and cached: "\<And>k' r. cache s k' = Some r \<Longrightarrow> heap s r = Some k'"
    by (simp_all add: session_ok_def)
  have fresh: "heap s ?n = None"
    using below [of ?n] by (cases "heap s ?n") auto
  have ok: "session_ok ?s'"
    unfolding session_ok_def
  proof (intro conjI allI impI)
    fix r assume "r \<in> dom (heap ?s')"
    then have "r = ?n \<or> r \<in> dom (heap s)" by (auto split: if_splits)
    with below show "r < next_ref ?s'" by (auto simp: less_Suc_eq)
  next
    fix k' r assume c: "cache ?s' k' = Some r"
    show "heap ?s' r = Some k'"
    proof (cases "k' = k")
      case True
      with c show ?thesis by simp
    next
      case False
      with c have c': "cache s k' = Some r" by simp
      from cached [OF c'] have h: "heap s r = Some k'" .
      with fresh have "r \<noteq> ?n" by auto
      with h show ?thesis by simp
    qed
  qed
  have ex: "extends s ?s'"
    using fresh None by (simp add: extends_def map_le_def dom_def)
  from ok ex show ?thesis
    by (simp add: cached_new_miss [OF None])
qed

lemma wrap_cases:
  "wrap s e = (case heap s e of None \<Rightarrow> (e, s)
               | Some node \<Rightarrow> (case spec_wrapper node e of None \<Rightarrow> (e, s)
                                | Some w \<Rightarrow> cached_new w s))"
  by (simp add: wrap_def spec_wrapper_def split: option.splits object.splits)

lemma wrap_ok:
  assumes "session_ok s"
  shows "session_ok (snd (wrap s e)) \<and> extends s (snd (wrap s e))"
proof (cases "heap s e")
  case None
  with assms show ?thesis by (simp add: wrap_cases extends_refl)
next
  case (Some node)
  show ?thesis
  proof (cases "spec_wrapper node e")
    case None
    with Some assms show ?thesis by (simp add: wrap_cases extends_refl)
  next
    case (Some w)
    with \<open>heap s e = Some node\<close> have "wrap s e = cached_new w s" by (simp add: wrap_cases)
    with cached_new_ok [OF assms, of w] show ?thesis by simp
  qed
qed

lemma wrap_all_ok:
  assumes "session_ok s"
  shows "session_ok (wrap_all s es) \<and> extends s (wrap_all s es)"
  using assms
proof (induction es arbitrary: s)
  case Nil
  then show ?case by (simp add: extends_refl)
next
  case (Cons e es)
  from wrap_ok [OF Cons.prems, of e]
  have ok: "session_ok (snd (wrap s e))" and ex: "extends s (snd (wrap s e))" by simp_all
  from Cons.IH [OF ok] have "session_ok (wrap_all (snd (wrap s e)) es)"
    and "extends (snd (wrap s e)) (wrap_all (snd (wrap s e)) es)" by simp_all
  with extends_trans [OF ex] show ?case
    by simp
qed

lemma extends_heap: "extends s s' \<Longrightarrow> heap s r = Some x \<Longrightarrow> heap s' r = Some x"
  by (metis domI extends_def map_le_def)

lemma extends_cache: "extends s s' \<Longrightarrow> cache s k = Some r \<Longrightarrow> cache s' k = Some r"
  by (metis domI extends_def map_le_def)

text \<open>
  Claim C8. In a well-formed session the factory is total and identity-stable: an object
  that is no parser class, function or unwrapped module is returned unchanged, with the
  session unchanged; for a parser class, function or module the returned reference points
  to its Class, Function or ModuleWrapper, and asking again for the same node, after any
  further calls of the factory in the session, returns the same reference. The session
  stays well formed.
\<close>

theorem wrap_identity_stable:
  assumes "session_ok s"
  shows "(case heap s element of
            None \<Rightarrow> wrap s element = (element, s)
          | Some node \<Rightarrow>
             (case spec_wrapper node element of
                None \<Rightarrow> wrap s element = (element, s)
              | Some w \<Rightarrow>
                  heap (snd (wrap s element)) (fst (wrap s element)) = Some w
                  \<and> fst (wrap (wrap_all (snd (wrap s element)) others) element)
                      = fst (wrap s element)))
         \<and> session_ok (snd (wrap s element))"
proof (cases "heap s element")
  case None
  with wrap_ok [OF assms, of element] show ?thesis by (simp add: wrap_cases)
next
  case (Some node)
  show ?thesis
  proof (cases "spec_wrapper node element")
    case None
    with Some wrap_ok [OF assms, of element] show ?thesis by (simp add: wrap_cases)
  next
    case (Some w)
    let ?r1 = "fst (wrap s element)" and ?s1 = "snd (wrap s element)"
    let ?s2 = "wrap_all ?s1 others"
    from Some \<open>heap s element = Some node\<close> have w: "wrap s element = cached_new w s"
      by (simp add: wrap_cases)
    from cached_new_ok [OF assms, of w] w
    have ok1: "session_ok ?s1" and ex1: "extends s ?s1"
      and c1: "cache ?s1 w = Some ?r1" and h1: "heap ?s1 ?r1 = Some w" by simp_all
    from wrap_all_ok [OF ok1, of others] have ex2: "extends ?s1 ?s2" by simp
    from extends_heap [OF extends_trans [OF ex1 ex2] \<open>heap s element = Some node\<close>]
    have "heap ?s2 element = Some node" .
    with Some have "wrap ?s2 element = cached_new w ?s2" by (simp add: wrap_cases)
    moreover from extends_cache [OF ex2 c1] have "cache ?s2 w = Some ?r1" .
    ultimately have "fst (wrap ?s2 element) = ?r1" by (simp add: cached_new_def)
    with h1 ok1 Some \<open>heap s element = Some node\<close> show ?thesis by simp
  qed
qed

theorem wrap_identity_stable_witness:
  "heap (snd (wrap session0 0)) (fst (wrap session0 0)) = Some (A_Class 0)
   \<and> fst (wrap (wrap_all (snd (wrap session0 0)) [1, 2, 0, 1]) 0) = fst (wrap session0 0)
   \<and> fst (wrap session0 0) = 3
   \<and> wrap session0 2 = (2, session0)"
proof -
  have ok: "session_ok session0"
    by (auto simp: session_ok_def session0_def split: if_splits)
  have h: "heap session0 0 = Some A_pr_Class" by (simp add: session0_def)
  have "fst (wrap session0 0) = 3" "wrap session0 2 = (2, session0)"
    by (simp_all add: wrap_def cached_new_def session0_def)
  with wrap_identity_stable [OF ok, of 0 "[1, 2, 0, 1]"] h show ?thesis
    by (simp add: spec_wrapper_def)
qed

section \<open>Properties of the self-attribute harvesting\<close>

lemma defined_names_loop_eq:
  "defined_names_loop self p ns names =
     names @ map (spec_reroot self) (filter (\<lambda>(first, rest, code). first = p \<and> length rest = 1) ns)"
proof (induction ns arbitrary: names)
  case Nil
  then show ?case by simp
next
  case (Cons n ns)
  obtain first rest code where n: "n = (first, rest, code)" by (cases n)
  show ?case
  proof (cases "first = p \<and> length rest = 1")
    case True
    then obtain a where rest: "rest = [a]" by (cases rest) auto
    have "add_self_dot_name self rest names = names @ [spec_reroot self n]"
      by (simp add: rest n spec_reroot_def get_instance_el_def isinstance_def)
    with True n Cons [of "names @ [spec_reroot self n]"] show ?thesis by simp
  next
    case False
    with n Cons [of names] show ?thesis by auto
  qed
qed

lemma subscopes_loop_eq:
  "subscopes_loop tr self var_args subs names =
     names @ concat (map (spec_method_names tr self var_args) subs)"
proof (induction subs arbitrary: names)
  case Nil
  then show ?case by simp
next
  case (Cons sub subs)
  show ?case
  proof (cases "isinstance sub [T_pr_Class] \<or> param_names tr sub = [] \<or> hd (param_names tr sub) = []")
    case True
    then have "spec_method_names tr self var_args sub = []"
      by (simp add: spec_method_names_def)
    with True Cons [of names] show ?thesis
      by (auto simp: get_func_self_name_def split: list.splits)
  next
    case False
    then obtain p ps where p: "param_names tr sub = p # ps" "p \<noteq> []"
      by (cases "param_names tr sub") auto
    have scanned: "get_defined_names tr
            (if name_code tr sub = ''__init__''
             then (if decorators tr sub = [] then get_method_execution self var_args sub else sub)
             else sub) = spec_scanned tr self var_args sub"
      by (simp add: spec_scanned_def get_method_execution_def)
    from False p have "spec_method_names tr self var_args sub =
        map (spec_reroot self)
             (filter (\<lambda>(first, rest, code). first = p \<and> length rest = 1)
                (spec_scanned tr self var_args sub))"
      by (simp add: spec_method_names_def)
    with False p scanned Cons show ?thesis
      by (simp add: get_func_self_name_def Let_def defined_names_loop_eq del: get_defined_names.simps)
  qed
qed

lemma insts_loop_ok:
  assumes "attr_rec_ok rec" and "insts_loop rec insts names m = Some (names', m')"
  shows "m \<subseteq>\<^sub>m m' \<and> (\<exists>inh. names' = names @ inh)"
  using assms(2)
proof (induction insts arbitrary: names m)
  case Nil
  then show ?case by simp
next
  case (Cons inst insts)
  from Cons.prems obtain attrs m1 where r: "rec inst m = Some (attrs, m1)"
    and rest: "insts_loop rec insts (names @ attrs) m1 = Some (names', m')"
    by (auto split: option.splits)
  from assms(1) r have le: "m \<subseteq>\<^sub>m m1" unfolding attr_rec_ok_def by blast
  from Cons.IH [OF rest] obtain inh where le2: "m1 \<subseteq>\<^sub>m m'" and n: "names' = (names @ attrs) @ inh"
    by blast
  from map_le_trans [OF le le2] n show ?case by simp
qed

lemma attr_bases_loop_ok:
  assumes "attr_rec_ok rec" and "attr_bases_loop rec ss names m = Some (names', m')"
  shows "m \<subseteq>\<^sub>m m' \<and> (\<exists>inh. names' = names @ inh)"
  using assms(2)
proof (induction ss arbitrary: names m)
  case Nil
  then show ?case by simp
next
  case (Cons s ss)
  show ?case
  proof (cases "isinstance s [T_CompiledObject]")
    case True
    with Cons show ?thesis by simp
  next
    case False
    with Cons.prems obtain n1 m1 where
      i: "insts_loop rec (Class_py__call s []) names m = Some (n1, m1)"
      and rest: "attr_bases_loop rec ss n1 m1 = Some (names', m')"
      by (auto split: option.splits)
    from insts_loop_ok [OF assms(1) i] obtain inh1 where
      le1: "m \<subseteq>\<^sub>m m1" and n1: "n1 = names @ inh1" by blast
    from Cons.IH [OF rest] obtain inh2 where
      le2: "m1 \<subseteq>\<^sub>m m'" and n2: "names' = n1 @ inh2" by blast
    from map_le_trans [OF le1 le2] n1 n2 show ?thesis by simp
  qed
qed

lemma get_self_attributes_rec_ok: "attr_rec_ok (get_self_attributes fuel ev tr)"
proof (induction fuel)
  case 0
  then show ?case by (simp add: attr_rec_ok_def)
next
  case (Suc k)
  show ?case
    unfolding attr_rec_ok_def
  proof (intro allI impI)
    fix inst m r m1
    assume call: "get_self_attributes (Suc k) ev tr inst m = Some (r, m1)"
    show "m \<subseteq>\<^sub>m m1"
    proof (cases "\<exists>base va. inst = Instance (Class base) va \<and> m inst = None")
      case False
      with call have "m1 = m"
        by (auto split: element.splits option.splits)
      then show ?thesis by simp
    next
      case True
      then obtain base va where inst: "inst = Instance (Class base) va" and none: "m inst = None"
        by blast
      with call obtain m2 where
        loop: "attr_bases_loop (get_self_attributes k ev tr) (fst (py__bases ev tr base []))
                 (subscopes_loop tr inst va (subscopes_of tr (Class base)) [])
                 (m(inst \<mapsto> [])) = Some (r, m2)"
        and m1: "m1 = m2(inst \<mapsto> r)"
        by (auto split: option.splits)
      from attr_bases_loop_ok [OF Suc loop] have "m(inst \<mapsto> []) \<subseteq>\<^sub>m m2" by blast
      with none m1 show ?thesis
        by (auto simp: map_le_def dom_def)
    qed
  qed
qed

lemma get_self_attributes_fresh:
  assumes "m (Instance (Class base) var_args) = None"
    and "get_self_attributes fuel ev tr (Instance (Class base) var_args) m = Some (names, m')"
  shows "\<exists>inherited. names =
           concat (map (spec_method_names tr (Instance (Class base) var_args) var_args)
                     (subscopes_of tr (Class base))) @ inherited"
proof -
  let ?self = "Instance (Class base) var_args"
  from assms(2) obtain k where k: "fuel = Suc k" by (cases fuel) auto
  with assms obtain m2 where
    loop: "attr_bases_loop (get_self_attributes k ev tr) (fst (py__bases ev tr base []))
             (subscopes_loop tr ?self var_args (subscopes_of tr (Class base)) [])
             (m(?self \<mapsto> [])) = Some (names, m2)"
    by (auto split: option.splits)
  from attr_bases_loop_ok [OF get_self_attributes_rec_ok loop] subscopes_loop_eq
  show ?thesis by (simp del: subscopes_of.simps)
qed

lemma finite_table_instances: "finite (table_instances tr)"
  by (simp add: table_instances_def finite_table_classes)

lemma card_table_instances: "card (table_instances tr) \<le> length (supers_table tr)"
proof -
  have "card (table_instances tr) \<le> card (table_classes tr)"
    unfolding table_instances_def by (rule card_image_le) (rule finite_table_classes)
  with card_table_classes [of tr] show ?thesis by simp
qed

lemma insts_loop_total:
  assumes "attr_rec_ok rec"
    and "\<forall>inst \<in> set insts. \<forall>m2. m \<subseteq>\<^sub>m m2 \<longrightarrow> rec inst m2 \<noteq> None"
  shows "insts_loop rec insts names m \<noteq> None"
  using assms(2)
proof (induction insts arbitrary: names m)
  case Nil
  then show ?case by simp
next
  case (Cons inst insts)
  from Cons.prems have "rec inst m \<noteq> None" by simp
  then obtain attrs m1 where r: "rec inst m = Some (attrs, m1)" by auto
  with assms(1) have le: "m \<subseteq>\<^sub>m m1" unfolding attr_rec_ok_def by blast
  have "\<forall>inst \<in> set insts. \<forall>m2. m1 \<subseteq>\<^sub>m m2 \<longrightarrow> rec inst m2 \<noteq> None"
  proof (intro ballI allI impI)
    fix i m2
    assume i: "i \<in> set insts" and le2: "m1 \<subseteq>\<^sub>m m2"
    from le le2 have "m \<subseteq>\<^sub>m m2" by (rule map_le_trans)
    with Cons.prems i show "rec i m2 \<noteq> None" by simp
  qed
  from Cons.IH [OF this] r show ?case by simp
qed

lemma attr_bases_loop_total:
  assumes "attr_rec_ok rec"
    and "\<forall>s \<in> set ss. \<forall>m2. m \<subseteq>\<^sub>m m2 \<longrightarrow> rec (Instance s []) m2 \<noteq> None"
  shows "attr_bases_loop rec ss names m \<noteq> None"
  using assms(2)
proof (induction ss arbitrary: names m)
  case Nil
  then show ?case by simp
next
  case (Cons s ss)
  show ?case
  proof (cases "isinstance s [T_CompiledObject]")
    case True
    with Cons show ?thesis by simp
  next
    case False
    have "\<forall>inst \<in> set (Class_py__call s []). \<forall>m2. m \<subseteq>\<^sub>m m2 \<longrightarrow> rec inst m2 \<noteq> None"
      using Cons.prems by (simp add: Class_py__call_def)
    from insts_loop_total [OF assms(1) this]
    obtain n1 m1 where i: "insts_loop rec (Class_py__call s []) names m = Some (n1, m1)"
      by fastforce
    from insts_loop_ok [OF assms(1) i] have le: "m \<subseteq>\<^sub>m m1" by blast
    have "\<forall>s \<in> set ss. \<forall>m2. m1 \<subseteq>\<^sub>m m2 \<longrightarrow> rec (Instance s []) m2 \<noteq> None"
    proof (intro ballI allI impI)
      fix s' m2
      assume s': "s' \<in> set ss" and le2: "m1 \<subseteq>\<^sub>m m2"
      from le le2 have "m \<subseteq>\<^sub>m m2" by (rule map_le_trans)
      with Cons.prems s' show "rec (Instance s' []) m2 \<noteq> None" by simp
    qed
    from Cons.IH [OF this] i False show ?thesis by simp
  qed
qed

lemma get_self_attributes_outside:
  assumes "\<forall>base va. self = Instance (Class base) va \<longrightarrow> Class base \<notin> table_classes tr"
  shows "get_self_attributes (Suc k) ev tr self m \<noteq> None"
proof (cases "\<exists>base va. self = Instance (Class base) va")
  case False
  then show ?thesis by (auto split: element.splits)
next
  case True
  then obtain base va where self: "self = Instance (Class base) va" by blast
  with assms have "fst (py__bases ev tr base []) = [object_obj]"
    by (simp add: bases_outside_table)
  with self show ?thesis
    by (simp add: object_obj_def isinstance_def split: option.splits)
qed

lemma get_self_attributes_inside:
  "self \<in> table_instances tr \<Longrightarrow> card (table_instances tr - dom m) + 1 \<le> fuel
     \<Longrightarrow> get_self_attributes fuel ev tr self m \<noteq> None"
proof (induction fuel arbitrary: self m)
  case 0
  then show ?case by simp
next
  case (Suc k)
  from Suc.prems(1) obtain base where self: "self = Instance (Class base) []"
    by (auto simp: table_instances_def table_classes_def)
  show ?case
  proof (cases "m self")
    case (Some rv)
    with self show ?thesis by simp
  next
    case None
    let ?m1 = "m(self \<mapsto> [])"
    from None Suc.prems(1) have mem: "self \<in> table_instances tr - dom m"
      by (simp add: domIff)
    then have less: "card (table_instances tr - dom m - {self}) < card (table_instances tr - dom m)"
      by (intro card_Diff1_less) (simp_all add: finite_table_instances)
    have "\<forall>s \<in> set (fst (py__bases ev tr base [])). \<forall>m2. ?m1 \<subseteq>\<^sub>m m2
            \<longrightarrow> get_self_attributes k ev tr (Instance s []) m2 \<noteq> None"
    proof (intro ballI allI impI)
      fix s m2
      assume le: "?m1 \<subseteq>\<^sub>m m2"
      then have "dom ?m1 \<subseteq> dom m2" by (rule map_le_implies_dom_le)
      then have sub: "table_instances tr - dom m2 \<subseteq> table_instances tr - dom m - {self}"
        by auto
      have "card (table_instances tr - dom m2) \<le> card (table_instances tr - dom m - {self})"
        by (rule card_mono [OF _ sub]) (simp add: finite_table_instances)
      with less Suc.prems(2) have bound: "card (table_instances tr - dom m2) + 1 \<le> k"
        by simp
      show "get_self_attributes k ev tr (Instance s []) m2 \<noteq> None"
      proof (cases "Instance s [] \<in> table_instances tr")
        case True
        from Suc.IH [OF True bound] show ?thesis .
      next
        case False
        then have out: "\<forall>base va. Instance s [] = Instance (Class base) va
                          \<longrightarrow> Class base \<notin> table_classes tr"
          by (auto simp: table_instances_def)
        from bound obtain k' where "k = Suc k'" by (cases k) auto
        with get_self_attributes_outside [OF out] show ?thesis by simp
      qed
    qed
    from attr_bases_loop_total [OF get_self_attributes_rec_ok this]
    have "attr_bases_loop (get_self_attributes k ev tr) (fst (py__bases ev tr base []))
            (subscopes_loop tr self [] (subscopes_of tr (Class base)) []) ?m1 \<noteq> None" .
    with None self show ?thesis by (auto split: option.splits)
  qed
qed

lemma get_self_attributes_total:
  assumes "card (table_instances tr - dom m) + 2 \<le> fuel"
  shows "get_self_attributes fuel ev tr self m \<noteq> None"
proof -
  from assms obtain k where k: "fuel = Suc k" "card (table_instances tr - dom m) + 1 \<le> k"
    by (cases fuel) auto
  show ?thesis
  proof (cases "\<exists>base va. self = Instance (Class base) va \<and> m self = None")
    case False
    then show ?thesis unfolding k by (auto split: element.splits option.splits)
  next
    case True
    then obtain base va where self: "self = Instance (Class base) va" and none: "m self = None"
      by blast
    let ?m1 = "m(self \<mapsto> [])"
    have "\<forall>s \<in> set (fst (py__bases ev tr base [])). \<forall>m2. ?m1 \<subseteq>\<^sub>m m2
            \<longrightarrow> get_self_attributes k ev tr (Instance s []) m2 \<noteq> None"
    proof (intro ballI allI impI)
      fix s m2
      assume le: "?m1 \<subseteq>\<^sub>m m2"
      then have "dom ?m1 \<subseteq> dom m2" by (rule map_le_implies_dom_le)
      then have sub: "table_instances tr - dom m2 \<subseteq> table_instances tr - dom m"
        by auto
      have "card (table_instances tr - dom m2) \<le> card (table_instances tr - dom m)"
        by (rule card_mono [OF _ sub]) (simp add: finite_table_instances)
      with k(2) have bound: "card (table_instances tr - dom m2) + 1 \<le> k" by simp
      show "get_self_attributes k ev tr (Instance s []) m2 \<noteq> None"
      proof (cases "Instance s [] \<in> table_instances tr")
        case True
        from get_self_attributes_inside [OF True bound] show ?thesis .
      next
        case False
        then have out: "\<forall>base va. Instance s [] = Instance (Class base) va
                          \<longrightarrow> Class base \<notin> table_classes tr"
          by (auto simp: table_instances_def)
        from bound obtain k' where "k = Suc k'" by (cases k) auto
        with get_self_attributes_outside [OF out] show ?thesis by simp
      qed
    qed
    from attr_bases_loop_total [OF get_self_attributes_rec_ok this]
    have "attr_bases_loop (get_self_attributes k ev tr) (fst (py__bases ev tr base []))
            (subscopes_loop tr self va (subscopes_of tr (Class base)) []) ?m1 \<noteq> None" .
    with none self show ?thesis unfolding k by (auto split: option.splits)
  qed
qed

text \<open>
  Claim C9, as amended. \<^verbatim>\<open>get_self_attributes\<close> of an instance, when it is computed
  (with fuel beyond the number of class headers), returns first the names harvested from
  the subscopes of the class in order, then the names inherited from the bases. Every
  function whose first parameter has a name contributes its two-segment names
  \<^verbatim>\<open><first-param>.<attr>\<close>, re-rooted onto the instance; the names scanned are those
  of the FunctionExecution for a constructor without decorators, and the function's own
  defined names otherwise, also for a constructor that carries decorators.
\<close>

theorem get_self_attributes_harvest:
  assumes "m (Instance (Class base) var_args) = None"
    and "length (supers_table tr) + 2 \<le> fuel"
  shows "\<exists>inherited m'.
           get_self_attributes fuel ev tr (Instance (Class base) var_args) m
             = Some (concat (map (spec_method_names tr (Instance (Class base) var_args) var_args)
                               (subscopes_of tr (Class base))) @ inherited, m')"
proof -
  have "card (table_instances tr - dom m) \<le> card (table_instances tr)"
    by (rule card_mono) (simp_all add: finite_table_instances)
  with card_table_instances [of tr] assms(2)
  have "card (table_instances tr - dom m) + 2 \<le> fuel" by simp
  from get_self_attributes_total [OF this]
  obtain names m' where
    call: "get_self_attributes fuel ev tr (Instance (Class base) var_args) m = Some (names, m')"
    by fastforce
  from get_self_attributes_fresh [OF assms(1) call] call show ?thesis by blast
qed

theorem get_self_attributes_harvest_witness:
  "\<exists>inherited m'.
     get_self_attributes 3 ev_none tr_attr (Instance (Class node_D) []) Map.empty
       = Some ([InstanceElement (Instance (Class node_D) []) (PrName ''x'' [] ''x'') False,
                InstanceElement (Instance (Class node_D) []) (PrName ''z'' [] ''z'') False]
               @ inherited, m')"
proof -
  have none: "Map.empty (Instance (Class node_D) []) = None" by simp
  have fuel: "length (supers_table tr_attr) + 2 \<le> 3"
    by (simp add: tr_attr_def empty_tree_def)
  have own: "concat (map (spec_method_names tr_attr (Instance (Class node_D) []) [])
                      (subscopes_of tr_attr (Class node_D)))
             = [InstanceElement (Instance (Class node_D) []) (PrName ''x'' [] ''x'') False,
                InstanceElement (Instance (Class node_D) []) (PrName ''z'' [] ''z'') False]"
    by (simp add: spec_method_names_def spec_scanned_def spec_reroot_def tr_attr_def
          empty_tree_def isinstance_def init_D_def node_D_def)
  from get_self_attributes_harvest
         [where m = Map.empty and base = node_D and var_args = "[]" and tr = tr_attr
            and fuel = 3 and ev = ev_none, OF none fuel]
  show ?thesis unfolding own .
qed

text \<open>
  The claim C9 as stated fails: the decorated constructor of \<^verbatim>\<open>D\<close> is not skipped;
  its name \<^verbatim>\<open>self.x\<close> is harvested like the name \<^verbatim>\<open>this.z\<close> of the method.
\<close>

theorem decorated_constructor_counterexample:
  "name_code tr_attr init_D = ''__init__''
   \<and> decorators tr_attr init_D = [PrStatement 50]
   \<and> subscopes_of tr_attr (Class node_D) = [init_D, PrFunction 71, PrClass 72]
   \<and> defined_names tr_attr init_D = [(''self'', [''x''], ''self.x''), (''y'', [], ''y'')]
   \<and> map_option fst (get_self_attributes 3 ev_none tr_attr inst_D Map.empty)
       = Some [InstanceElement inst_D (PrName ''x'' [] ''x'') False,
               InstanceElement inst_D (PrName ''z'' [] ''z'') False]"
proof -
  have "map_option fst (get_self_attributes 3 ev_none tr_attr inst_D Map.empty)
       = Some [InstanceElement inst_D (PrName ''x'' [] ''x'') False,
               InstanceElement inst_D (PrName ''z'' [] ''z'') False]"
    by code_simp
  then show ?thesis
    by (simp add: tr_attr_def empty_tree_def init_D_def node_D_def)
qed

section \<open>Termination of the return-type inference\<close>




















end
